theory Spec2Isabelle
  imports Main "HOL-Library.Word" "HOL-Library.Sublist"
begin

section \<open>Strings of the host language\<close>

text \<open>
  A string of the plugin is a sequence of 16-bit code units. Literals of the source are
  written \<open>str ''...''\<close>; all of them are ASCII.
\<close>

type_synonym jschar = "16 word"
type_synonym jsstring = "jschar list"

definition str :: "string \<Rightarrow> jsstring" where
  "str s = map of_char s"

text \<open>
  The class \<open>\s\<close> of a regular expression, which is also what \<open>trim\<close> strips: the white
  space and line terminator code points.
\<close>

definition isWhiteSpace :: "jschar \<Rightarrow> bool" where
  "isWhiteSpace c \<longleftrightarrow>
     (0x09 \<le> c \<and> c \<le> 0x0D) \<or> c = 0x20 \<or> c = 0xA0 \<or> c = 0x1680 \<or>
     (0x2000 \<le> c \<and> c \<le> 0x200A) \<or> c = 0x2028 \<or> c = 0x2029 \<or> c = 0x202F \<or>
     c = 0x205F \<or> c = 0x3000 \<or> c = 0xFEFF"

text \<open>The class \<open>\w\<close>: ASCII letters, digits and the underscore.\<close>

definition isWordChar :: "jschar \<Rightarrow> bool" where
  "isWordChar c \<longleftrightarrow>
     (0x41 \<le> c \<and> c \<le> 0x5A) \<or> (0x61 \<le> c \<and> c \<le> 0x7A) \<or>
     (0x30 \<le> c \<and> c \<le> 0x39) \<or> c = 0x5F"

text \<open>
  Case folding of the flag \<open>i\<close> (without the flag \<open>u\<close>): a code unit is compared through
  its upper case, and a code unit outside ASCII is never folded onto an ASCII one. Every
  character of the pattern is ASCII, so folding the ASCII letters is all the comparison
  with a pattern character can see.
\<close>

definition canonicalize :: "jschar \<Rightarrow> jschar" where
  "canonicalize c = (if 0x61 \<le> c \<and> c \<le> 0x7A then c - 0x20 else c)"

definition startsWith :: "jsstring \<Rightarrow> jsstring \<Rightarrow> bool" where
  "startsWith s p \<longleftrightarrow> take (length p) s = p"

definition trim :: "jsstring \<Rightarrow> jsstring" where
  "trim s = rev (dropWhile isWhiteSpace (rev (dropWhile isWhiteSpace s)))"

text \<open>
  \<open>s.split(sep)\<close> for a string separator: the pieces between the successive occurrences
  of \<open>sep\<close>, scanning from the left; \<open>piece\<close> holds the current piece in reverse. An empty
  separator splits into the single code units.
\<close>

function splitFrom :: "jsstring \<Rightarrow> jsstring \<Rightarrow> jsstring \<Rightarrow> jsstring list" where
  "splitFrom sep piece s =
     (if s = [] then [rev piece]
      else if sep \<noteq> [] \<and> startsWith s sep
        then rev piece # splitFrom sep [] (drop (length sep) s)
      else splitFrom sep (hd s # piece) (tl s))"
  by pat_completeness auto
termination
  by (relation "measure (\<lambda>(sep, piece, s). length s)") auto

definition split :: "jsstring \<Rightarrow> jsstring \<Rightarrow> jsstring list" where
  "split s sep = (if sep = [] then map (\<lambda>c. [c]) s else splitFrom sep [] s)"

section \<open>The marker \<open>/Feature-Flag:\s*(\w+)/i\<close>\<close>

text \<open>
  \<open>matchLiteral p s\<close> matches the literal part of the pattern at the start of \<open>s\<close>, folding
  case, and returns the rest of the input.
\<close>

fun matchLiteral :: "jsstring \<Rightarrow> jsstring \<Rightarrow> jsstring option" where
  "matchLiteral [] s = Some s"
| "matchLiteral (p # ps) [] = None"
| "matchLiteral (p # ps) (c # cs) =
     (if canonicalize c = canonicalize p then matchLiteral ps cs else None)"

text \<open>
  The whole pattern at the start of the input. \<open>\s*\<close> and \<open>\w+\<close> are greedy and their
  classes are disjoint, so giving back white space can never help: the match is the
  longest run of white space followed by the longest, non-empty, run of word characters.
  The result is the capture group.
\<close>

definition matchHere :: "jsstring \<Rightarrow> jsstring option" where
  "matchHere s =
     (case matchLiteral (str ''Feature-Flag:'') s of
        None \<Rightarrow> None
      | Some r \<Rightarrow>
          (let w = takeWhile isWordChar (dropWhile isWhiteSpace r)
           in if w = [] then None else Some w))"

text \<open>\<open>text.match(...)\<close>: the leftmost position where the pattern matches, if any.\<close>

fun flagMatch :: "jsstring \<Rightarrow> jsstring option" where
  "flagMatch [] = matchHere []"
| "flagMatch (c # cs) =
     (case matchHere (c # cs) of Some w \<Rightarrow> Some w | None \<Rightarrow> flagMatch cs)"

section \<open>The plugin\<close>

record featureFlagPlugin =
  enabledFlags :: "jsstring set"
  previouslyEnabledFlags :: "jsstring set"

text \<open>The constructor's loop over the entries of the environment.\<close>

fun loadEnv :: "(jsstring \<times> jsstring) list \<Rightarrow> featureFlagPlugin \<Rightarrow> featureFlagPlugin" where
  "loadEnv [] this = this"
| "loadEnv ((key, val) # entries) this =
     loadEnv entries
       (if startsWith key (str ''FEATURE_'') then
          (let this1 = (if val = str ''true''
                        then this\<lparr>enabledFlags := insert key (enabledFlags this)\<rparr>
                        else this);
               this2 = (if val = str ''false''
                        then this1\<lparr>previouslyEnabledFlags :=
                                      insert key (previouslyEnabledFlags this1)\<rparr>
                        else this1)
           in this2)
        else this)"

definition FeatureFlagPlugin :: "(jsstring \<times> jsstring) list \<Rightarrow> featureFlagPlugin" where
  "FeatureFlagPlugin env = loadEnv env \<lparr>enabledFlags = {}, previouslyEnabledFlags = {}\<rparr>"

record pullRequest =
  body :: jsstring

record commit =
  sha :: jsstring
  message :: jsstring
  pullRequest :: "pullRequest option"

text \<open>\<open>shouldIncludeCommit\<close> of \<open>src/plugins/feature-flags.ts\<close>: the message alone is inspected.\<close>

definition shouldIncludeCommit :: "featureFlagPlugin \<Rightarrow> commit \<Rightarrow> bool" where
  "shouldIncludeCommit this c =
     (case flagMatch (message c) of
        None \<Rightarrow> True
      | Some flag \<Rightarrow> flag \<in> enabledFlags this)"

text \<open>
  \<open>shouldIncludeCommit\<close> of the compiled plugin \<open>feature-flags.js\<close> that filters in place:
  it looks for a commit override in the body of the pull request first.
\<close>

definition overrideMessage :: "jsstring \<Rightarrow> jsstring" where
  "overrideMessage b =
     trim (case split (case drop 1 (split b (str ''BEGIN_COMMIT_OVERRIDE'')) of
                         [] \<Rightarrow> []
                       | x # _ \<Rightarrow> x)
                      (str ''END_COMMIT_OVERRIDE'') of
             [] \<Rightarrow> []
           | y # _ \<Rightarrow> y)"

definition messageToCheck :: "commit \<Rightarrow> jsstring" where
  "messageToCheck c =
     (case pullRequest c of
        None \<Rightarrow> message c
      | Some pr \<Rightarrow>
          if body pr \<noteq> [] then
            (if overrideMessage (body pr) \<noteq> [] then overrideMessage (body pr)
             else message c)
          else message c)"

definition shouldIncludeCommit_override :: "featureFlagPlugin \<Rightarrow> commit \<Rightarrow> bool" where
  "shouldIncludeCommit_override this c =
     (case flagMatch (messageToCheck c) of
        None \<Rightarrow> True
      | Some flag \<Rightarrow> flag \<in> enabledFlags this)"

section \<open>Filtering the commits of every path\<close>

text \<open>
  The loop of \<open>preconfigure\<close> that compacts an array in place: \<open>readIndex\<close> runs over the
  array, the elements to keep are copied down to \<open>writeIndex\<close>. The result is the array
  and the final \<open>writeIndex\<close>. From the start \<open>(0, 0)\<close> the write index never passes the
  read index, so the assignment is always inside the array (lemma \<open>compactLoop_inv\<close>
  below) and never extends it.
\<close>

function compactLoop :: "('a \<Rightarrow> bool) \<Rightarrow> 'a list \<Rightarrow> nat \<Rightarrow> nat \<Rightarrow> 'a list \<times> nat" where
  "compactLoop keep commits readIndex writeIndex =
     (if readIndex < length commits then
        (if keep (commits ! readIndex)
         then compactLoop keep (commits[writeIndex := commits ! readIndex])
                (readIndex + 1) (writeIndex + 1)
         else compactLoop keep commits (readIndex + 1) writeIndex)
      else (commits, writeIndex))"
  by pat_completeness auto
termination
  by (relation "measure (\<lambda>(keep, commits, readIndex, writeIndex). length commits - readIndex)")
    auto

text \<open>The loop from \<open>(0, 0)\<close>, then \<open>commits.length = writeIndex\<close>.\<close>

definition filterInPlace :: "('a \<Rightarrow> bool) \<Rightarrow> 'a list \<Rightarrow> 'a list" where
  "filterInPlace keep commits =
     (case compactLoop keep commits 0 0 of (cs, writeIndex) \<Rightarrow> take writeIndex cs)"

text \<open>
  The arguments of \<open>preconfigure\<close> are three objects keyed by path. The commit arrays are
  mutated in place and two paths may hold the same array, so the arrays live in a store
  and \<open>commitsByPath\<close> maps a path to the reference of its array.
\<close>

type_synonym ref = nat

record ('s, 'r) pipeline =
  strategiesByPath :: "(jsstring \<times> 's) list"
  commitsByPath :: "(jsstring \<times> ref) list"
  releasesByPath :: "(jsstring \<times> 'r) list"
  arrays :: "ref \<Rightarrow> commit list"

text \<open>The loop over \<open>Object.entries(commitsByPath)\<close>, for the predicate of the plugin.\<close>

fun filterEntries ::
  "(commit \<Rightarrow> bool) \<Rightarrow> (jsstring \<times> ref) list \<Rightarrow> (ref \<Rightarrow> commit list) \<Rightarrow> (ref \<Rightarrow> commit list)"
where
  "filterEntries keep [] store = store"
| "filterEntries keep ((path, commits) # entries) store =
     filterEntries keep entries (store(commits := filterInPlace keep (store commits)))"

text \<open>
  \<open>preconfigure\<close> of \<open>src/plugins/feature-flags.ts\<close> returns the strategies it was given;
  the second component is the state it leaves.
\<close>

definition preconfigure ::
  "featureFlagPlugin \<Rightarrow> ('s, 'r) pipeline \<Rightarrow> (jsstring \<times> 's) list \<times> ('s, 'r) pipeline"
where
  "preconfigure this st =
     (strategiesByPath st,
      st\<lparr>arrays := filterEntries (shouldIncludeCommit this) (commitsByPath st) (arrays st)\<rparr>)"

text \<open>\<open>preconfigure\<close> of the compiled plugin: the same loop, with its own predicate.\<close>

definition preconfigure_override ::
  "featureFlagPlugin \<Rightarrow> ('s, 'r) pipeline \<Rightarrow> (jsstring \<times> 's) list \<times> ('s, 'r) pipeline"
where
  "preconfigure_override this st =
     (strategiesByPath st,
      st\<lparr>arrays :=
           filterEntries (shouldIncludeCommit_override this) (commitsByPath st) (arrays st)\<rparr>)"

text \<open>
  \<open>processCommits\<close> of the compiled plugin that has no \<open>preconfigure\<close>: a fresh array
  from \<open>commits.filter(...)\<close>, with the predicate that inspects the message.
\<close>

definition processCommits :: "featureFlagPlugin \<Rightarrow> commit list \<Rightarrow> commit list" where
  "processCommits this commits = filter (\<lambda>commit. shouldIncludeCommit this commit) commits"













section \<open>Sample inputs\<close>

text \<open>
  The inputs at which the results below are evaluated: an environment that enables
  \<open>FEATURE_X\<close>, a commit with no marker, one for the enabled flag, one for another flag, and
  a pipeline in which the root path and a second path hold the same array, one in which
  two paths hold the same strategy object, and one with a path \<open>__proto__\<close>, with plain
  objects in the store and, for the prototype chain, the members of the prototype of
  objects, each standing for a truthy value; further
  down, commits whose marker names the flag without the prefix of its variable, commits
  with an override in the body of their pull request, and commits whose label has no
  name behind it.
\<close>

abbreviation envX :: "(jsstring \<times> jsstring) list" where
  "envX \<equiv> [(str ''FEATURE_X'', str ''true'')]"

abbreviation commitA :: commit where
  "commitA \<equiv> \<lparr>sha = str ''a1'', message = str ''fix: a'', pullRequest = None\<rparr>"

abbreviation commitB :: commit where
  "commitB \<equiv> \<lparr>sha = str ''b2'',
     message = str ''feat: b\<newline>\<newline>Feature-Flag: FEATURE_X'', pullRequest = None\<rparr>"

abbreviation commitC :: commit where
  "commitC \<equiv> \<lparr>sha = str ''c3'',
     message = str ''feat: c\<newline>\<newline>Feature-Flag: FEATURE_Y'', pullRequest = None\<rparr>"

abbreviation pipeline0 :: "(nat, nat) pipeline" where
  "pipeline0 \<equiv> \<lparr>strategiesByPath = [(str ''.'', 7)],
      commitsByPath = [(str ''.'', 0), (str ''pkg'', 1), (str ''alias'', 0)],
      releasesByPath = [(str ''.'', 9)],
      arrays = (\<lambda>r. if r = 0 then [commitA, commitC, commitB]
                     else if r = 1 then [commitC]
                     else if r = 2 then [commitC, commitA] else [])\<rparr>"







abbreviation commitBX :: commit where
  "commitBX \<equiv> \<lparr>sha = str ''b2'',
     message = str ''feat: b\<newline>\<newline>Feature-Flag: X'', pullRequest = None\<rparr>"

abbreviation commitCY :: commit where
  "commitCY \<equiv> \<lparr>sha = str ''c3'',
     message = str ''feat: c\<newline>\<newline>Feature-Flag: Y'', pullRequest = None\<rparr>"

abbreviation commitOverride :: commit where
  "commitOverride \<equiv> \<lparr>sha = str ''e5'',
     message = str ''feat: z\<newline>\<newline>Feature-Flag: FEATURE_X'',
     pullRequest = Some \<lparr>body =
       str ''desc BEGIN_COMMIT_OVERRIDE Feature-Flag: FEATURE_OFF END_COMMIT_OVERRIDE''\<rparr>\<rparr>"

abbreviation commitOpenOverride :: commit where
  "commitOpenOverride \<equiv> \<lparr>sha = str ''f6'', message = str ''fix: y'',
     pullRequest = Some \<lparr>body = str ''BEGIN_COMMIT_OVERRIDE Feature-Flag: FEATURE_OFF''\<rparr>\<rparr>"



section \<open>The compaction loop is a filter\<close>

declare compactLoop.simps [simp del]
declare splitFrom.simps [simp del]

lemma compactLoop_done:
  "\<not> readIndex < length commits \<Longrightarrow>
   compactLoop keep commits readIndex writeIndex = (commits, writeIndex)"
  by (subst compactLoop.simps) simp

lemma compactLoop_keep:
  "readIndex < length commits \<Longrightarrow> keep (commits ! readIndex) \<Longrightarrow>
   compactLoop keep commits readIndex writeIndex =
     compactLoop keep (commits[writeIndex := commits ! readIndex])
       (Suc readIndex) (Suc writeIndex)"
  by (subst compactLoop.simps) simp

lemma compactLoop_skip:
  "readIndex < length commits \<Longrightarrow> \<not> keep (commits ! readIndex) \<Longrightarrow>
   compactLoop keep commits readIndex writeIndex =
     compactLoop keep commits (Suc readIndex) writeIndex"
  by (subst compactLoop.simps) simp

text \<open>
  The invariant of the loop: what lies below the write index is what was there at the
  start followed by the kept elements that have been read.
\<close>

lemma compactLoop_take:
  "writeIndex \<le> readIndex \<Longrightarrow>
   take (snd (compactLoop keep commits readIndex writeIndex))
        (fst (compactLoop keep commits readIndex writeIndex))
     = take writeIndex commits @ filter keep (drop readIndex commits)"
proof (induction keep commits readIndex writeIndex rule: compactLoop.induct)
  case (1 keep commits readIndex writeIndex)
  show ?case
  proof (cases "readIndex < length commits")
    case False
    then show ?thesis by (simp add: compactLoop_done)
  next
    case inside: True
    have d: "drop readIndex commits = commits ! readIndex # drop (Suc readIndex) commits"
      using inside by (simp add: Cons_nth_drop_Suc)
    show ?thesis
    proof (cases "keep (commits ! readIndex)")
      case True
      have w: "writeIndex < length commits" using inside "1.prems" by simp
      have t: "take (Suc writeIndex) (commits[writeIndex := commits ! readIndex])
                 = take writeIndex commits @ [commits ! readIndex]"
        using w by (simp add: take_Suc_conv_app_nth)
      have dr: "drop (Suc readIndex) (commits[writeIndex := commits ! readIndex])
                 = drop (Suc readIndex) commits"
        using "1.prems" by simp
      from "1.IH"(1)[OF inside True] "1.prems"
      show ?thesis
        by (simp add: compactLoop_keep inside t dr d True)
    next
      case False
      from "1.IH"(2)[OF inside False] "1.prems"
      show ?thesis
        by (simp add: compactLoop_skip inside d False)
    qed
  qed
qed

text \<open>The write index stays inside the array, whose length the loop does not change.\<close>

lemma compactLoop_inv:
  "writeIndex \<le> readIndex \<Longrightarrow> readIndex \<le> length commits \<Longrightarrow>
   length (fst (compactLoop keep commits readIndex writeIndex)) = length commits \<and>
   writeIndex \<le> snd (compactLoop keep commits readIndex writeIndex) \<and>
   snd (compactLoop keep commits readIndex writeIndex) \<le> length commits"
proof (induction keep commits readIndex writeIndex rule: compactLoop.induct)
  case (1 keep commits readIndex writeIndex)
  show ?case
  proof (cases "readIndex < length commits")
    case False
    then show ?thesis using "1.prems" by (simp add: compactLoop_done)
  next
    case inside: True
    show ?thesis
    proof (cases "keep (commits ! readIndex)")
      case True
      from "1.IH"(1)[OF inside True] "1.prems" inside show ?thesis
        by (simp add: compactLoop_keep True)
    next
      case False
      from "1.IH"(2)[OF inside False] "1.prems" inside show ?thesis
        by (simp add: compactLoop_skip False)
    qed
  qed
qed

lemma filterInPlace_filter: "filterInPlace keep commits = filter keep commits"
  using compactLoop_take[of 0 0 keep commits]
  by (auto simp: filterInPlace_def split: prod.splits)

text \<open>
  The loop over the paths: every array that some path holds is filtered, once however
  many paths hold it, and no other array of the store is touched.
\<close>

lemma filterEntries_store:
  "filterEntries keep entries store =
     (\<lambda>r. if r \<in> snd ` set entries then filter keep (store r) else store r)"
proof (induction entries arbitrary: store)
  case Nil
  show ?case by simp
next
  case (Cons e entries)
  obtain path commits where e: "e = (path, commits)" by (cases e)
  show ?case
    unfolding e by (auto simp: Cons.IH filterInPlace_filter fun_eq_iff)
qed

section \<open>The enabled flags\<close>

lemma enabledFlags_loadEnv:
  "key \<in> enabledFlags (loadEnv env this) \<longleftrightarrow>
     key \<in> enabledFlags this \<or>
     (startsWith key (str ''FEATURE_'') \<and> (key, str ''true'') \<in> set env)"
proof (induction env arbitrary: this)
  case Nil
  show ?case by simp
next
  case (Cons e env)
  obtain k v where e: "e = (k, v)" by (cases e)
  show ?case unfolding e by (auto simp: Cons.IH Let_def)
qed

lemma enabledFlags_FeatureFlagPlugin:
  "key \<in> enabledFlags (FeatureFlagPlugin env) \<longleftrightarrow>
     startsWith key (str ''FEATURE_'') \<and> (key, str ''true'') \<in> set env"
  by (simp add: FeatureFlagPlugin_def enabledFlags_loadEnv)

lemma shouldIncludeCommit_override_message:
  "shouldIncludeCommit_override this c =
     shouldIncludeCommit this (c\<lparr>message := messageToCheck c\<rparr>)"
  by (simp add: shouldIncludeCommit_override_def shouldIncludeCommit_def)

lemmas eval_defs = str_def matchHere_def canonicalize_def isWhiteSpace_def
  isWordChar_def startsWith_def shouldIncludeCommit_def shouldIncludeCommit_override_def
  messageToCheck_def FeatureFlagPlugin_def processCommits_def

lemma arrays_preconfigure:
  "arrays (snd (preconfigure this st)) r =
     (if r \<in> snd ` set (commitsByPath st) then filter (shouldIncludeCommit this) (arrays st r)
      else arrays st r)"
  by (simp add: preconfigure_def filterEntries_store)

lemma arrays_preconfigure_override:
  "arrays (snd (preconfigure_override this st)) r =
     (if r \<in> snd ` set (commitsByPath st)
      then filter (shouldIncludeCommit_override this) (arrays st r)
      else arrays st r)"
  by (simp add: preconfigure_override_def filterEntries_store)

lemma filterEntries_idem:
  "filterEntries keep entries (filterEntries keep entries store) = filterEntries keep entries store"
  by (simp add: filterEntries_store fun_eq_iff)

section \<open>The marker pattern\<close>

lemma matchLiteral_Some:
  "matchLiteral p s = Some r \<longleftrightarrow>
     (\<exists>l. s = l @ r \<and> length l = length p \<and> map canonicalize l = map canonicalize p)"
proof (induction p s rule: matchLiteral.induct)
  case (1 s)
  show ?case by auto
next
  case (2 p ps)
  show ?case by auto
next
  case (3 p ps c cs)
  show ?case
  proof (cases "canonicalize c = canonicalize p")
    case True
    have "(\<exists>l. cs = l @ r \<and> length l = length ps \<and> map canonicalize l = map canonicalize ps)
        \<longleftrightarrow> (\<exists>l. c # cs = l @ r \<and> length l = length (p # ps) \<and>
                  map canonicalize l = map canonicalize (p # ps))"
    proof
      assume "\<exists>l. cs = l @ r \<and> length l = length ps \<and> map canonicalize l = map canonicalize ps"
      then obtain l where "cs = l @ r" "length l = length ps"
        "map canonicalize l = map canonicalize ps" by blast
      then have "c # cs = (c # l) @ r \<and> length (c # l) = length (p # ps) \<and>
        map canonicalize (c # l) = map canonicalize (p # ps)"
        using True by simp
      then show "\<exists>l. c # cs = l @ r \<and> length l = length (p # ps) \<and>
                  map canonicalize l = map canonicalize (p # ps)" by blast
    next
      assume "\<exists>l. c # cs = l @ r \<and> length l = length (p # ps) \<and>
                  map canonicalize l = map canonicalize (p # ps)"
      then obtain l where l: "c # cs = l @ r" "length l = length (p # ps)"
        "map canonicalize l = map canonicalize (p # ps)" by blast
      then obtain x l' where "l = x # l'" by (cases l) auto
      with l show "\<exists>l. cs = l @ r \<and> length l = length ps \<and>
         map canonicalize l = map canonicalize ps" by auto
    qed
    then show ?thesis using True 3 by simp
  next
    case False
    have "\<not> (\<exists>l. c # cs = l @ r \<and> length l = length (p # ps) \<and>
                  map canonicalize l = map canonicalize (p # ps))"
    proof
      assume "\<exists>l. c # cs = l @ r \<and> length l = length (p # ps) \<and>
                  map canonicalize l = map canonicalize (p # ps)"
      then obtain l where l: "c # cs = l @ r" "length l = length (p # ps)"
        "map canonicalize l = map canonicalize (p # ps)" by blast
      then obtain x l' where "l = x # l'" by (cases l) auto
      with l False show False by auto
    qed
    then show ?thesis using False by simp
  qed
qed

lemma matchLiteral_append:
  "map canonicalize l = map canonicalize p \<Longrightarrow> matchLiteral p (l @ r) = Some r"
proof -
  assume a: "map canonicalize l = map canonicalize p"
  then have "length l = length p" by (metis length_map)
  with a show ?thesis by (subst matchLiteral_Some) auto
qed

lemma isWordChar_not_isWhiteSpace: "isWordChar c \<Longrightarrow> \<not> isWhiteSpace c"
  unfolding isWordChar_def isWhiteSpace_def
  by (auto simp: word_le_def word_less_def)

lemma capture_after_label:
  assumes ws: "list_all isWhiteSpace ws"
    and name: "name \<noteq> []" "list_all isWordChar name"
    and rest: "rest = [] \<or> \<not> isWordChar (hd rest)"
  shows "takeWhile isWordChar (dropWhile isWhiteSpace (ws @ name @ rest)) = name"
proof -
  from name obtain n ns where n: "name = n # ns" by (cases name) auto
  with name have "\<not> isWhiteSpace n" by (simp add: isWordChar_not_isWhiteSpace)
  with ws n have "dropWhile isWhiteSpace (ws @ name @ rest) = name @ rest"
    by (simp add: dropWhile_append list_all_iff)
  moreover have "takeWhile isWordChar (name @ rest) = name"
    using name(2) rest by (cases rest) (auto simp: list_all_iff takeWhile_append)
  ultimately show ?thesis by simp
qed

lemma matchHere_marker:
  assumes "map canonicalize lab = map canonicalize (str ''Feature-Flag:'')"
    and "list_all isWhiteSpace ws"
    and "name \<noteq> []" "list_all isWordChar name"
    and "rest = [] \<or> \<not> isWordChar (hd rest)"
  shows "matchHere (lab @ ws @ name @ rest) = Some name"
  using assms(3)
  by (simp add: matchHere_def matchLiteral_append[OF assms(1)]
      capture_after_label[OF assms(2-5)])

lemma flagMatch_here: "matchHere text = Some w \<Longrightarrow> flagMatch text = Some w"
  by (cases "text") simp_all

lemma flagMatch_skip:
  "\<forall>i<length pre. matchHere (drop i (pre @ text)) = None \<Longrightarrow>
   flagMatch (pre @ text) = flagMatch text"
proof (induction pre)
  case Nil
  show ?case by simp
next
  case (Cons c pre)
  from Cons.prems have h0: "matchHere (c # pre @ text) = None" by force
  from Cons.prems have "\<forall>i<length pre. matchHere (drop i (pre @ text)) = None" by force
  with Cons.IH h0 show ?case by simp
qed



section \<open>Splitting at the override tokens\<close>

lemma startsWith_prefix: "startsWith s p \<longleftrightarrow> prefix p s"
  by (auto simp: startsWith_def prefix_def) (metis append_eq_conv_conj)

lemma splitFrom_absent:
  "\<not> sublist sep s \<Longrightarrow> splitFrom sep piece s = [rev piece @ s]"
proof (induction s arbitrary: piece)
  case Nil
  show ?case by (subst splitFrom.simps) simp
next
  case (Cons c s)
  have np: "\<not> startsWith (c # s) sep"
    using Cons.prems by (auto simp: startsWith_prefix)
  have ns: "\<not> sublist sep s"
    using Cons.prems by (auto simp: sublist_Cons_right)
  show ?case
    by (subst splitFrom.simps) (simp add: np Cons.IH[OF ns])
qed

lemma splitFrom_first:
  "sep \<noteq> [] \<Longrightarrow> \<not> sublist sep (pre @ butlast sep) \<Longrightarrow>
   splitFrom sep piece (pre @ sep @ rest) = (rev piece @ pre) # splitFrom sep [] rest"
proof (induction pre arbitrary: piece)
  case Nil
  have "startsWith (sep @ rest) sep" by (simp add: startsWith_def)
  then show ?case using Nil.prems(1)
    by (subst splitFrom.simps) simp
next
  case (Cons c pre)
  have ns: "\<not> sublist sep (pre @ butlast sep)"
    using Cons.prems(2) by (auto simp: sublist_Cons_right)
  have np: "\<not> startsWith ((c # pre) @ sep @ rest) sep"
  proof
    assume "startsWith ((c # pre) @ sep @ rest) sep"
    then have t: "take (length sep) ((c # pre) @ sep @ rest) = sep"
      by (simp add: startsWith_def)
    have l: "length sep \<le> length ((c # pre) @ butlast sep)" by simp
    have "(c # pre) @ sep @ rest = ((c # pre) @ butlast sep) @ (last sep # rest)"
      using Cons.prems(1) by simp
    then have "take (length sep) ((c # pre) @ sep @ rest)
                 = take (length sep) ((c # pre) @ butlast sep)"
      using l by (metis append.right_neutral diff_is_0_eq take_0 take_append)
    with t have "prefix sep ((c # pre) @ butlast sep)"
      by (metis take_is_prefix)
    then show False using Cons.prems(2) by auto
  qed
  show ?case
    using Cons.IH[OF Cons.prems(1) ns, of "c # piece"] np
    by (subst splitFrom.simps) simp
qed

lemma split_absent: "sep \<noteq> [] \<Longrightarrow> \<not> sublist sep s \<Longrightarrow> split s sep = [s]"
  by (simp add: split_def splitFrom_absent)

lemma split_first:
  "sep \<noteq> [] \<Longrightarrow> \<not> sublist sep (pre @ butlast sep) \<Longrightarrow>
   split (pre @ sep @ rest) sep = pre # split rest sep"
  by (simp add: split_def splitFrom_first)

text \<open>The piece in front: the text up to the first separator, or all of it.\<close>

lemma split_front:
  assumes "sep \<noteq> []"
    and "(\<not> sublist sep s \<and> x = s) \<or>
         (\<exists>rest. s = x @ sep @ rest \<and> \<not> sublist sep (x @ butlast sep))"
  shows "\<exists>pieces. split s sep = x # pieces"
  using assms by (auto simp: split_absent split_first)

lemma BEGIN_nonempty: "str ''BEGIN_COMMIT_OVERRIDE'' \<noteq> []"
  by (simp add: str_def)

lemma END_nonempty: "str ''END_COMMIT_OVERRIDE'' \<noteq> []"
  by (simp add: str_def)

lemma split_Nil: "sep \<noteq> [] \<Longrightarrow> split [] sep = [[]]"
  by (simp add: split_absent)

lemma overrideMessage_absent:
  "\<not> sublist (str ''BEGIN_COMMIT_OVERRIDE'') b \<Longrightarrow> overrideMessage b = []"
  by (simp add: overrideMessage_def split_absent[OF BEGIN_nonempty] split_Nil[OF END_nonempty]
      trim_def)

lemma overrideMessage_block:
  assumes "b = pre @ str ''BEGIN_COMMIT_OVERRIDE'' @ rest"
    and "\<not> sublist (str ''BEGIN_COMMIT_OVERRIDE'') (pre @ butlast (str ''BEGIN_COMMIT_OVERRIDE''))"
    and "(\<not> sublist (str ''BEGIN_COMMIT_OVERRIDE'') rest \<and> x = rest) \<or>
         (\<exists>more. rest = x @ str ''BEGIN_COMMIT_OVERRIDE'' @ more \<and>
            \<not> sublist (str ''BEGIN_COMMIT_OVERRIDE'') (x @ butlast (str ''BEGIN_COMMIT_OVERRIDE'')))"
    and "(\<not> sublist (str ''END_COMMIT_OVERRIDE'') x \<and> y = x) \<or>
         (\<exists>post. x = y @ str ''END_COMMIT_OVERRIDE'' @ post \<and>
            \<not> sublist (str ''END_COMMIT_OVERRIDE'') (y @ butlast (str ''END_COMMIT_OVERRIDE'')))"
  shows "overrideMessage b = trim y"
proof -
  from split_front[OF BEGIN_nonempty assms(3)]
  obtain ps where ps: "split rest (str ''BEGIN_COMMIT_OVERRIDE'') = x # ps" by blast
  from split_front[OF END_nonempty assms(4)]
  obtain qs where qs: "split x (str ''END_COMMIT_OVERRIDE'') = y # qs" by blast
  have "split b (str ''BEGIN_COMMIT_OVERRIDE'') = pre # x # ps"
    unfolding assms(1) by (simp add: split_first[OF BEGIN_nonempty assms(2)] ps)
  then show ?thesis by (simp add: overrideMessage_def qs)
qed

lemmas eval_override = overrideMessage_def split_def splitFrom.simps trim_def

section \<open>The fresh mapping of strategies\<close>









section \<open>The claims\<close>

text \<open>
  C1 (amended). A commit whose inspected text has a marker is kept exactly when the name
  in the marker belongs to the enabled flags of the plugin; and the enabled flags built
  by the constructor are the names of the environment variables that start with
  \<open>FEATURE_\<close> and whose value is exactly \<open>true\<close>. A marker that names a variable with
  another value, an unset variable, or a variable without the prefix discards the commit.
\<close>

theorem kept_iff_enabled:
  "(flagMatch (message c) = Some flag \<longrightarrow>
      (shouldIncludeCommit this c \<longleftrightarrow> flag \<in> enabledFlags this)) \<and>
   (flagMatch (messageToCheck c) = Some flag \<longrightarrow>
      (shouldIncludeCommit_override this c \<longleftrightarrow> flag \<in> enabledFlags this)) \<and>
   (flag \<in> enabledFlags (FeatureFlagPlugin env) \<longleftrightarrow>
      startsWith flag (str ''FEATURE_'') \<and> (flag, str ''true'') \<in> set env) \<and>
   (flagMatch (message c) = Some flag \<longrightarrow>
      (shouldIncludeCommit (FeatureFlagPlugin env) c \<longleftrightarrow>
         startsWith flag (str ''FEATURE_'') \<and> (flag, str ''true'') \<in> set env)) \<and>
   (flagMatch (messageToCheck c) = Some flag \<longrightarrow>
      (shouldIncludeCommit_override (FeatureFlagPlugin env) c \<longleftrightarrow>
         startsWith flag (str ''FEATURE_'') \<and> (flag, str ''true'') \<in> set env))"
  by (simp add: shouldIncludeCommit_def shouldIncludeCommit_override_def
      enabledFlags_FeatureFlagPlugin)

theorem kept_iff_enabled_witness:
  "flagMatch (message commitB) = Some (str ''FEATURE_X'') \<and>
   shouldIncludeCommit (FeatureFlagPlugin envX) commitB \<and>
   flagMatch (messageToCheck commitB) = Some (str ''FEATURE_X'') \<and>
   shouldIncludeCommit_override (FeatureFlagPlugin envX) commitB \<and>
   str ''FEATURE_X'' \<in> enabledFlags (FeatureFlagPlugin envX) \<and>
   \<not> shouldIncludeCommit (FeatureFlagPlugin [(str ''FEATURE_X'', str ''maybe'')]) commitB \<and>
   \<not> shouldIncludeCommit (FeatureFlagPlugin []) commitB"
  using kept_iff_enabled [of commitB "str ''FEATURE_X''" "FeatureFlagPlugin envX" envX]
    kept_iff_enabled [of commitB "str ''FEATURE_X''"
      "FeatureFlagPlugin [(str ''FEATURE_X'', str ''maybe'')]" "[(str ''FEATURE_X'', str ''maybe'')]"]
    kept_iff_enabled [of commitB "str ''FEATURE_X''" "FeatureFlagPlugin []" "[]"]
  by (simp add: eval_defs)

text \<open>
  Against C1 as it was stated, which takes every variable whose value is \<open>true\<close> for an enabled
  flag: the variable \<open>NOT_A_FEATURE\<close> has the value \<open>true\<close>, and the commit that names it
  is discarded.
\<close>

theorem true_variable_without_prefix_counterexample:
  "(str ''NOT_A_FEATURE'', str ''true'') \<in> set [(str ''NOT_A_FEATURE'', str ''true'')] \<and>
   flagMatch (message \<lparr>sha = str ''abc'',
       message = str ''feat: test\<newline>\<newline>Feature-Flag: NOT_A_FEATURE'',
       pullRequest = None\<rparr>) = Some (str ''NOT_A_FEATURE'') \<and>
   \<not> shouldIncludeCommit (FeatureFlagPlugin [(str ''NOT_A_FEATURE'', str ''true'')])
       \<lparr>sha = str ''abc'',
        message = str ''feat: test\<newline>\<newline>Feature-Flag: NOT_A_FEATURE'',
        pullRequest = None\<rparr>"
  by (simp add: eval_defs)

text \<open>
  C2. A commit whose inspected text has no marker is always kept: filtering a list of
  commits without marker returns the list as it was. This holds for the loop in place
  and the fresh filter of the plugin that inspects the message, and for the loop of the
  plugin that inspects the override first.
\<close>

theorem marker_free_kept:
  "((\<forall>c \<in> set commits. flagMatch (message c) = None) \<longrightarrow>
      filterInPlace (shouldIncludeCommit this) commits = commits \<and>
      processCommits this commits = commits) \<and>
   ((\<forall>c \<in> set commits. flagMatch (messageToCheck c) = None) \<longrightarrow>
      filterInPlace (shouldIncludeCommit_override this) commits = commits)"
  by (simp add: filterInPlace_filter processCommits_def shouldIncludeCommit_def
      shouldIncludeCommit_override_def)

theorem marker_free_kept_witness:
  "flagMatch (message commitA) = None \<and>
   flagMatch (message (commitA\<lparr>sha := str ''d4'', message := str ''docs: flags''\<rparr>)) = None \<and>
   filterInPlace (shouldIncludeCommit (FeatureFlagPlugin []))
       [commitA, commitA\<lparr>sha := str ''d4'', message := str ''docs: flags''\<rparr>]
     = [commitA, commitA\<lparr>sha := str ''d4'', message := str ''docs: flags''\<rparr>] \<and>
   flagMatch (messageToCheck commitA) = None \<and>
   flagMatch (messageToCheck (commitA\<lparr>sha := str ''d4'', message := str ''docs: flags''\<rparr>))
     = None \<and>
   filterInPlace (shouldIncludeCommit_override (FeatureFlagPlugin []))
       [commitA, commitA\<lparr>sha := str ''d4'', message := str ''docs: flags''\<rparr>]
     = [commitA, commitA\<lparr>sha := str ''d4'', message := str ''docs: flags''\<rparr>]"
  using marker_free_kept
    [of "[commitA, commitA\<lparr>sha := str ''d4'', message := str ''docs: flags''\<rparr>]"
      "FeatureFlagPlugin []"]
  by (simp add: eval_defs)

text \<open>
  C3 (amended). In the plugin that reads commit overrides, the override text of a pull
  request body is the text behind the first \<open>BEGIN_COMMIT_OVERRIDE\<close>, up to the next
  \<open>BEGIN_COMMIT_OVERRIDE\<close> if there is one (\<open>x\<close>), of that the part up to the first
  \<open>END_COMMIT_OVERRIDE\<close> if there is one (\<open>y\<close>), trimmed. When it is not empty, the text
  inspected is the override text and the decision is the one the message would get if it
  were that text, whatever marker the message itself has. When it is empty, when the body
  has no \<open>BEGIN_COMMIT_OVERRIDE\<close>, or when the commit has no pull request, the message is
  inspected.
\<close>

theorem override_precedence:
  "(pullRequest c = Some pr \<and>
    body pr = pre @ str ''BEGIN_COMMIT_OVERRIDE'' @ rest \<and>
    \<not> sublist (str ''BEGIN_COMMIT_OVERRIDE'') (pre @ butlast (str ''BEGIN_COMMIT_OVERRIDE'')) \<and>
    ((\<not> sublist (str ''BEGIN_COMMIT_OVERRIDE'') rest \<and> x = rest) \<or>
     (\<exists>more. rest = x @ str ''BEGIN_COMMIT_OVERRIDE'' @ more \<and>
        \<not> sublist (str ''BEGIN_COMMIT_OVERRIDE'') (x @ butlast (str ''BEGIN_COMMIT_OVERRIDE'')))) \<and>
    ((\<not> sublist (str ''END_COMMIT_OVERRIDE'') x \<and> y = x) \<or>
     (\<exists>post. x = y @ str ''END_COMMIT_OVERRIDE'' @ post \<and>
        \<not> sublist (str ''END_COMMIT_OVERRIDE'') (y @ butlast (str ''END_COMMIT_OVERRIDE''))))
    \<longrightarrow>
      (trim y \<noteq> [] \<longrightarrow>
         messageToCheck c = trim y \<and>
         (shouldIncludeCommit_override this c
            \<longleftrightarrow> shouldIncludeCommit this (c\<lparr>message := trim y\<rparr>))) \<and>
      (trim y = [] \<longrightarrow>
         messageToCheck c = message c \<and>
         (shouldIncludeCommit_override this c \<longleftrightarrow> shouldIncludeCommit this c))) \<and>
   (pullRequest c = None \<or>
    (pullRequest c = Some pr \<and> \<not> sublist (str ''BEGIN_COMMIT_OVERRIDE'') (body pr))
    \<longrightarrow>
      messageToCheck c = message c \<and>
      (shouldIncludeCommit_override this c \<longleftrightarrow> shouldIncludeCommit this c))"
proof (intro conjI impI)
  assume a: "pullRequest c = Some pr \<and>
    body pr = pre @ str ''BEGIN_COMMIT_OVERRIDE'' @ rest \<and>
    \<not> sublist (str ''BEGIN_COMMIT_OVERRIDE'') (pre @ butlast (str ''BEGIN_COMMIT_OVERRIDE'')) \<and>
    ((\<not> sublist (str ''BEGIN_COMMIT_OVERRIDE'') rest \<and> x = rest) \<or>
     (\<exists>more. rest = x @ str ''BEGIN_COMMIT_OVERRIDE'' @ more \<and>
        \<not> sublist (str ''BEGIN_COMMIT_OVERRIDE'') (x @ butlast (str ''BEGIN_COMMIT_OVERRIDE'')))) \<and>
    ((\<not> sublist (str ''END_COMMIT_OVERRIDE'') x \<and> y = x) \<or>
     (\<exists>post. x = y @ str ''END_COMMIT_OVERRIDE'' @ post \<and>
        \<not> sublist (str ''END_COMMIT_OVERRIDE'') (y @ butlast (str ''END_COMMIT_OVERRIDE''))))"
  then have om: "overrideMessage (body pr) = trim y"
    by (intro overrideMessage_block[of "body pr" pre rest x y]) blast+
  from a have pr: "pullRequest c = Some pr" "body pr \<noteq> []"
    using BEGIN_nonempty by auto
  {
    assume "trim y \<noteq> []"
    then show "messageToCheck c = trim y"
      using om pr by (auto simp: messageToCheck_def)
    then show "shouldIncludeCommit_override this c
            \<longleftrightarrow> shouldIncludeCommit this (c\<lparr>message := trim y\<rparr>)"
      by (simp add: shouldIncludeCommit_override_message)
  }
  {
    assume "trim y = []"
    then show "messageToCheck c = message c"
      using om pr by (auto simp: messageToCheck_def)
    then show "shouldIncludeCommit_override this c \<longleftrightarrow> shouldIncludeCommit this c"
      by (simp add: shouldIncludeCommit_override_message)
  }
next
  assume "pullRequest c = None \<or>
    (pullRequest c = Some pr \<and> \<not> sublist (str ''BEGIN_COMMIT_OVERRIDE'') (body pr))"
  then show m: "messageToCheck c = message c"
    by (auto simp: messageToCheck_def overrideMessage_absent)
  then show "shouldIncludeCommit_override this c \<longleftrightarrow> shouldIncludeCommit this c"
    by (simp add: shouldIncludeCommit_override_message)
qed

theorem override_precedence_witness:
  "messageToCheck commitOverride = str ''Feature-Flag: FEATURE_OFF'' \<and>
   flagMatch (message commitOverride) = Some (str ''FEATURE_X'') \<and>
   shouldIncludeCommit (FeatureFlagPlugin envX) commitOverride \<and>
   \<not> shouldIncludeCommit_override (FeatureFlagPlugin envX) commitOverride \<and>
   messageToCheck commitB = message commitB \<and>
   shouldIncludeCommit_override (FeatureFlagPlugin envX) commitB"
proof -
  have pre: "\<not> sublist (str ''BEGIN_COMMIT_OVERRIDE'')
               (str ''desc '' @ butlast (str ''BEGIN_COMMIT_OVERRIDE''))"
    by (simp add: str_def sublist_code)
  have x: "\<not> sublist (str ''BEGIN_COMMIT_OVERRIDE'')
               (str '' Feature-Flag: FEATURE_OFF END_COMMIT_OVERRIDE'')"
    by (simp add: str_def sublist_code)
  have y: "\<not> sublist (str ''END_COMMIT_OVERRIDE'')
               (str '' Feature-Flag: FEATURE_OFF '' @ butlast (str ''END_COMMIT_OVERRIDE''))"
    by (simp add: str_def sublist_code)
  have t: "trim (str '' Feature-Flag: FEATURE_OFF '') = str ''Feature-Flag: FEATURE_OFF''"
    by (simp add: trim_def str_def isWhiteSpace_def)
  have b: "body \<lparr>body =
       str ''desc BEGIN_COMMIT_OVERRIDE Feature-Flag: FEATURE_OFF END_COMMIT_OVERRIDE''\<rparr>
     = str ''desc '' @ str ''BEGIN_COMMIT_OVERRIDE'' @
         str '' Feature-Flag: FEATURE_OFF END_COMMIT_OVERRIDE''"
    by (simp add: str_def)
  have s: "str '' Feature-Flag: FEATURE_OFF END_COMMIT_OVERRIDE''
     = str '' Feature-Flag: FEATURE_OFF '' @ str ''END_COMMIT_OVERRIDE'' @ []"
    by (simp add: str_def)
  from override_precedence
    [of commitOverride "\<lparr>body =
       str ''desc BEGIN_COMMIT_OVERRIDE Feature-Flag: FEATURE_OFF END_COMMIT_OVERRIDE''\<rparr>"
      "str ''desc ''" "str '' Feature-Flag: FEATURE_OFF END_COMMIT_OVERRIDE''"
      "str '' Feature-Flag: FEATURE_OFF END_COMMIT_OVERRIDE''"
      "str '' Feature-Flag: FEATURE_OFF ''" "FeatureFlagPlugin envX"]
    pre x y s b t
  have 1: "messageToCheck commitOverride = str ''Feature-Flag: FEATURE_OFF'' \<and>
    (shouldIncludeCommit_override (FeatureFlagPlugin envX) commitOverride \<longleftrightarrow>
     shouldIncludeCommit (FeatureFlagPlugin envX)
       (commitOverride\<lparr>message := str ''Feature-Flag: FEATURE_OFF''\<rparr>))"
    by (simp add: str_def)
  from override_precedence [of commitB "\<lparr>body = []\<rparr>" _ _ _ _ "FeatureFlagPlugin envX"]
  have 2: "messageToCheck commitB = message commitB \<and>
    (shouldIncludeCommit_override (FeatureFlagPlugin envX) commitB \<longleftrightarrow>
     shouldIncludeCommit (FeatureFlagPlugin envX) commitB)"
    by simp
  show ?thesis using 1 2 by (simp add: eval_defs)
qed

text \<open>
  Against C3 as it was stated, which inspects the message when there is no block between
  the two tokens. A body that opens an override and never closes it has no such block; its
  message has no marker, yet the commit is discarded for the flag of the open override.
\<close>

theorem unterminated_override_counterexample:
  "\<not> sublist (str ''END_COMMIT_OVERRIDE'')
       (str ''BEGIN_COMMIT_OVERRIDE Feature-Flag: FEATURE_OFF'') \<and>
   flagMatch (message commitOpenOverride) = None \<and>
   messageToCheck commitOpenOverride = str ''Feature-Flag: FEATURE_OFF'' \<and>
   \<not> shouldIncludeCommit_override (FeatureFlagPlugin envX) commitOpenOverride"
  by (simp add: eval_defs eval_override sublist_code)

text \<open>
  C4. For every path, the commits that survive stand in the array of the path in the
  order they had before: the array after \<open>preconfigure\<close> is a subsequence of the array
  before.
\<close>

theorem order_preserved:
  "(path, commits) \<in> set (commitsByPath st) \<Longrightarrow>
     subseq (arrays (snd (preconfigure this st)) commits) (arrays st commits) \<and>
     subseq (arrays (snd (preconfigure_override this st)) commits) (arrays st commits)"
  by (simp add: arrays_preconfigure arrays_preconfigure_override)

theorem order_preserved_witness:
  "(str ''.'', 0) \<in> set (commitsByPath pipeline0) \<and>
   arrays (snd (preconfigure (FeatureFlagPlugin envX) pipeline0)) 0 = [commitA, commitB] \<and>
   subseq (arrays (snd (preconfigure (FeatureFlagPlugin envX) pipeline0)) 0)
     [commitA, commitC, commitB] \<and>
   subseq (arrays (snd (preconfigure_override (FeatureFlagPlugin envX) pipeline0)) 0)
     [commitA, commitC, commitB]"
  using order_preserved [of "str ''.''" 0 pipeline0 "FeatureFlagPlugin envX"]
  by (simp add: arrays_preconfigure eval_defs)

text \<open>
  C5. Filtering is idempotent: running \<open>preconfigure\<close> on the state it left gives the same
  result and the same state again, whatever the enabled flags and the commits.
\<close>

theorem filter_idempotent:
  "preconfigure this (snd (preconfigure this st)) = preconfigure this st \<and>
   preconfigure_override this (snd (preconfigure_override this st)) = preconfigure_override this st"
  by (simp add: preconfigure_def preconfigure_override_def filterEntries_idem)

theorem filter_idempotent_witness:
  "arrays (snd (preconfigure (FeatureFlagPlugin envX) pipeline0)) 0 = [commitA, commitB] \<and>
   arrays (snd (preconfigure (FeatureFlagPlugin envX)
                  (snd (preconfigure (FeatureFlagPlugin envX) pipeline0)))) 0 = [commitA, commitB]"
  using filter_idempotent [of "FeatureFlagPlugin envX" pipeline0]
  by (simp add: arrays_preconfigure eval_defs)

text \<open>
  C6 (amended). With the variable \<open>FEATURE_X\<close> set to \<open>true\<close> and nothing else in the
  environment, filtering the commits \<open>[a, b, c]\<close>, where \<open>a\<close> has no marker, the marker of
  \<open>b\<close> names \<open>FEATURE_X\<close>, the whole name of the variable, and the marker of \<open>c\<close> names
  another flag, returns \<open>[a, b]\<close>.
\<close>

theorem scenario_feature_x:
  "(flagMatch (message a) = None \<and> flagMatch (message b) = Some (str ''FEATURE_X'') \<and>
    flagMatch (message c) = Some y \<and> y \<noteq> str ''FEATURE_X'' \<longrightarrow>
      filterInPlace (shouldIncludeCommit (FeatureFlagPlugin [(str ''FEATURE_X'', str ''true'')]))
        [a, b, c] = [a, b] \<and>
      processCommits (FeatureFlagPlugin [(str ''FEATURE_X'', str ''true'')]) [a, b, c] = [a, b]) \<and>
   (flagMatch (messageToCheck a) = None \<and>
    flagMatch (messageToCheck b) = Some (str ''FEATURE_X'') \<and>
    flagMatch (messageToCheck c) = Some y \<and> y \<noteq> str ''FEATURE_X'' \<longrightarrow>
      filterInPlace
        (shouldIncludeCommit_override (FeatureFlagPlugin [(str ''FEATURE_X'', str ''true'')]))
        [a, b, c] = [a, b])"
proof -
  have x: "startsWith (str ''FEATURE_X'') (str ''FEATURE_'')"
    by (simp add: startsWith_def str_def)
  show ?thesis
    by (auto simp: filterInPlace_filter processCommits_def shouldIncludeCommit_def
        shouldIncludeCommit_override_def enabledFlags_FeatureFlagPlugin x)
qed

theorem scenario_feature_x_witness:
  "flagMatch (message commitA) = None \<and>
   flagMatch (message commitB) = Some (str ''FEATURE_X'') \<and>
   flagMatch (message commitC) = Some (str ''FEATURE_Y'') \<and>
   str ''FEATURE_Y'' \<noteq> str ''FEATURE_X'' \<and>
   filterInPlace (shouldIncludeCommit (FeatureFlagPlugin envX)) [commitA, commitB, commitC]
     = [commitA, commitB] \<and>
   filterInPlace (shouldIncludeCommit_override (FeatureFlagPlugin envX))
     [commitA, commitB, commitC] = [commitA, commitB]"
  using scenario_feature_x [of commitA commitB commitC "str ''FEATURE_Y''"]
  by (simp add: eval_defs)

text \<open>
  Against C6 as it was stated, where the marker of the second commit names the flag \<open>X\<close>
  of the variable \<open>FEATURE_X\<close>. The enabled flags hold the names of the variables, so \<open>X\<close> is not
  among them and only the commit without marker is left.
\<close>

theorem scenario_short_names_counterexample:
  "flagMatch (message commitA) = None \<and>
   flagMatch (message commitBX) = Some (str ''X'') \<and>
   flagMatch (message commitCY) = Some (str ''Y'') \<and>
   filterInPlace (shouldIncludeCommit (FeatureFlagPlugin [(str ''FEATURE_X'', str ''true'')]))
     [commitA, commitBX, commitCY] = [commitA] \<and>
   filterInPlace (shouldIncludeCommit (FeatureFlagPlugin [(str ''FEATURE_X'', str ''true'')]))
     [commitA, commitBX, commitCY] \<noteq> [commitA, commitBX]"
  by (simp add: filterInPlace_filter eval_defs)




text \<open>
  C8. The label of the marker is recognised in any letter case, the name behind it is
  taken as it is written and compared with the enabled flags exactly. For a text with its
  first marker behind \<open>pre\<close>, made of a label \<open>lab\<close> that equals \<open>Feature-Flag:\<close> up to
  case, white space \<open>ws\<close>, a name of word characters and a rest that does not go on with a
  word character: the match is the name, the commit is kept exactly when the name is
  enabled, and it is discarded when only a flag that differs from the name in letter
  case is enabled.
\<close>

theorem label_any_case_name_exact:
  assumes "map canonicalize lab = map canonicalize (str ''Feature-Flag:'')"
    and "list_all isWhiteSpace ws"
    and "name \<noteq> []" and "list_all isWordChar name"
    and "rest = [] \<or> \<not> isWordChar (hd rest)"
    and "\<forall>i<length pre. matchHere (drop i (pre @ lab @ ws @ name @ rest)) = None"
  shows "flagMatch (pre @ lab @ ws @ name @ rest) = Some name \<and>
    (message c = pre @ lab @ ws @ name @ rest \<longrightarrow>
       (shouldIncludeCommit this c \<longleftrightarrow> name \<in> enabledFlags this)) \<and>
    (messageToCheck c = pre @ lab @ ws @ name @ rest \<longrightarrow>
       (shouldIncludeCommit_override this c \<longleftrightarrow> name \<in> enabledFlags this)) \<and>
    (message c = pre @ lab @ ws @ name @ rest \<and> name \<notin> enabledFlags this \<and>
     other \<in> enabledFlags this \<and> map canonicalize other = map canonicalize name \<longrightarrow>
       \<not> shouldIncludeCommit this c)"
proof -
  have "matchHere (lab @ ws @ name @ rest) = Some name"
    using assms(1-5) by (rule matchHere_marker)
  then have "flagMatch (lab @ ws @ name @ rest) = Some name"
    by (rule flagMatch_here)
  with flagMatch_skip[OF assms(6)]
  have "flagMatch (pre @ lab @ ws @ name @ rest) = Some name" by simp
  then show ?thesis
    by (simp add: shouldIncludeCommit_def shouldIncludeCommit_override_def)
qed

theorem label_any_case_name_exact_witness:
  "flagMatch (str ''feat: l\<newline>\<newline>'' @ str ''feature-flag:'' @ str '' '' @ str ''FEATURE_TEST'' @ [])
     = Some (str ''FEATURE_TEST'') \<and>
   shouldIncludeCommit (FeatureFlagPlugin [(str ''FEATURE_TEST'', str ''true'')])
     \<lparr>sha = str ''abc'', message = str ''feat: l\<newline>\<newline>feature-flag: FEATURE_TEST'',
      pullRequest = None\<rparr> \<and>
   map canonicalize (str ''FEATURE_TEST'') = map canonicalize (str ''feature_test'') \<and>
   \<not> shouldIncludeCommit (FeatureFlagPlugin [(str ''FEATURE_TEST'', str ''true'')])
     \<lparr>sha = str ''def'', message = str ''feat: u\<newline>\<newline>FEATURE-FLAG: feature_test'',
      pullRequest = None\<rparr>"
proof -
  have lower: "map canonicalize (str ''feature-flag:'') = map canonicalize (str ''Feature-Flag:'')"
    and upper: "map canonicalize (str ''FEATURE-FLAG:'') = map canonicalize (str ''Feature-Flag:'')"
    and ws: "list_all isWhiteSpace (str '' '')"
    and n1: "str ''FEATURE_TEST'' \<noteq> []" "list_all isWordChar (str ''FEATURE_TEST'')"
    and n2: "str ''feature_test'' \<noteq> []" "list_all isWordChar (str ''feature_test'')"
    and rest: "([] :: jsstring) = [] \<or> \<not> isWordChar (hd [])"
    by (simp_all add: eval_defs)
  have first1: "\<forall>i<length (str ''feat: l\<newline>\<newline>'').
      matchHere (drop i (str ''feat: l\<newline>\<newline>'' @ str ''feature-flag:'' @ str '' '' @
                          str ''FEATURE_TEST'' @ [])) = None"
    by (simp add: eval_defs All_less_Suc2)
  have first2: "\<forall>i<length (str ''feat: u\<newline>\<newline>'').
      matchHere (drop i (str ''feat: u\<newline>\<newline>'' @ str ''FEATURE-FLAG:'' @ str '' '' @
                          str ''feature_test'' @ [])) = None"
    by (simp add: eval_defs All_less_Suc2)
  from label_any_case_name_exact [OF lower ws n1 rest first1,
      of "\<lparr>sha = str ''abc'', message = str ''feat: l\<newline>\<newline>feature-flag: FEATURE_TEST'',
          pullRequest = None\<rparr>"
         "FeatureFlagPlugin [(str ''FEATURE_TEST'', str ''true'')]"]
    label_any_case_name_exact [OF upper ws n2 rest first2,
      of "\<lparr>sha = str ''def'', message = str ''feat: u\<newline>\<newline>FEATURE-FLAG: feature_test'',
          pullRequest = None\<rparr>"
         "FeatureFlagPlugin [(str ''FEATURE_TEST'', str ''true'')]" "str ''FEATURE_TEST''"]
  show ?thesis
    by (simp add: str_def FeatureFlagPlugin_def startsWith_def canonicalize_def)
qed




text \<open>
  C10. The two ways of filtering agree: the loop that compacts the array in place
  leaves the list that a fresh \<open>filter\<close> with the same predicate returns, so that after
  \<open>preconfigure\<close> the array of every path is what \<open>processCommits\<close> returns for it.
\<close>

theorem in_place_loop_is_filter:
  "filterInPlace (shouldIncludeCommit this) commits
     = filter (\<lambda>commit. shouldIncludeCommit this commit) commits \<and>
   filterInPlace (shouldIncludeCommit this) commits = processCommits this commits \<and>
   ((path, r) \<in> set (commitsByPath st) \<longrightarrow>
      arrays (snd (preconfigure this st)) r = processCommits this (arrays st r))"
proof -
  have "(path, r) \<in> set (commitsByPath st) \<Longrightarrow> r \<in> snd ` set (commitsByPath st)"
    by force
  then show ?thesis
    by (auto simp: filterInPlace_filter processCommits_def arrays_preconfigure)
qed

theorem in_place_loop_is_filter_witness:
  "filterInPlace (shouldIncludeCommit (FeatureFlagPlugin envX)) [commitA, commitC, commitB]
     = [commitA, commitB] \<and>
   processCommits (FeatureFlagPlugin envX) [commitA, commitC, commitB] = [commitA, commitB] \<and>
   (str ''.'', 0) \<in> set (commitsByPath pipeline0) \<and>
   arrays (snd (preconfigure (FeatureFlagPlugin envX) pipeline0)) 0 = [commitA, commitB]"
  using in_place_loop_is_filter
    [of "FeatureFlagPlugin envX" "[commitA, commitC, commitB]" "str ''.''" 0 pipeline0]
  by (simp add: eval_defs)

end
